theory Spec2Isabelle
  imports Complex_Main
begin

section \<open>Coin-flip simulator: sampling, summary statistics and the binomial test\<close>

text \<open>
  The program is a Python module with three computational functions: \<open>flip_coin\<close>,
  \<open>calculate_statistics\<close> and \<open>perform_binomial_test\<close>. They call NumPy and SciPy,
  whose functions are modelled here by what they compute. Python floats are idealised
  as real numbers, extended by a not-a-number value where a library call can return
  one. Exceptions are values of the type \<open>py_error\<close>, carried on the left of a sum.
\<close>

datatype py_error = ValueError | TypeError | AttributeError | IndexError

datatype pyfloat = Fin real | NaN

text \<open>
  A Python number passed where a count is expected: an \<open>int\<close> or a \<open>float\<close>. The
  annotation \<open>n_flips: int\<close> is not enforced, so \<open>flip_coin\<close> can receive either.
\<close>

datatype py_number = PyInt int | PyFloat real

subsection \<open>The sampler behind \<open>flip_coin\<close>\<close>

text \<open>
  \<open>numpy.random.choice(a, size, p)\<close> with replacement, as the library documents and
  implements it: the probabilities are validated first (none negative, sum within
  \<open>sqrt eps\<close> of one), then the uniform samples are drawn, where a size that is
  not an integer is rejected with \<open>TypeError\<close> and a negative one with
  \<open>ValueError\<close>, and every sample \<open>u\<close> selects the element whose index is the number of
  entries of the normalised cumulative sums that are at most \<open>u\<close>. The process-wide
  generator is the sequence \<open>us\<close> of uniform samples it will deliver next.
\<close>

fun cumsum :: "real \<Rightarrow> real list \<Rightarrow> real list" where
  "cumsum acc [] = []"
| "cumsum acc (x # xs) = (acc + x) # cumsum (acc + x) xs"

definition searchsorted_right :: "real list \<Rightarrow> real \<Rightarrow> nat" where
  "searchsorted_right cdf u = length (filter (\<lambda>c. c \<le> u) cdf)"

definition atol :: real where
  "atol = 1 / 2 ^ 26"

definition take_item :: "'a list \<Rightarrow> nat \<Rightarrow> py_error + 'a" where
  "take_item a i = (if i < length a then Inr (a ! i) else Inl IndexError)"

fun collect :: "(py_error + 'a) list \<Rightarrow> py_error + 'a list" where
  "collect [] = Inr []"
| "collect (r # rs) =
     (case r of
        Inl e \<Rightarrow> Inl e
      | Inr x \<Rightarrow> (case collect rs of Inl e \<Rightarrow> Inl e | Inr xs \<Rightarrow> Inr (x # xs)))"

definition random_choice :: "(nat \<Rightarrow> real) \<Rightarrow> 'a list \<Rightarrow> py_number \<Rightarrow> real list \<Rightarrow> py_error + 'a list" where
  "random_choice us a size' p =
     (if length p \<noteq> length a then Inl ValueError
      else if \<exists>x \<in> set p. x < 0 then Inl ValueError
      else if \<bar>sum_list p - 1\<bar> > atol then Inl ValueError
      else (case size' of
              PyFloat x \<Rightarrow> Inl TypeError
            | PyInt n \<Rightarrow>
                if n < 0 then Inl ValueError
                else let cdf = map (\<lambda>c. c / sum_list p) (cumsum 0 p)
                     in collect (map (\<lambda>i. take_item a (searchsorted_right cdf (us i))) [0..<nat n])))"

definition flip_coin :: "(nat \<Rightarrow> real) \<Rightarrow> py_number \<Rightarrow> real \<Rightarrow> py_error + string list" where
  "flip_coin us n_flips probability =
     random_choice us [''Cara'', ''Cruz''] n_flips [probability, 1 - probability]"

subsection \<open>\<open>calculate_statistics\<close>\<close>

record statistics =
  total' :: int
  caras :: int
  cruces :: int
  porcentaje_caras :: real
  porcentaje_cruces :: real

definition calculate_statistics :: "string list \<Rightarrow> statistics" where
  "calculate_statistics results =
     (let total = int (length results);
          caras = int (count_list results ''Cara'');
          cruces = int (count_list results ''Cruz'')
      in \<lparr> total' = total,
           caras = caras,
           cruces = cruces,
           porcentaje_caras = (if total > 0 then real_of_int caras / real_of_int total * 100 else 0),
           porcentaje_cruces = (if total > 0 then real_of_int cruces / real_of_int total * 100 else 0) \<rparr>)"

subsection \<open>The binomial distribution\<close>

definition binom_pmf :: "nat \<Rightarrow> real \<Rightarrow> nat \<Rightarrow> real" where
  "binom_pmf n p k = real (n choose k) * p ^ k * (1 - p) ^ (n - k)"

definition binom_cdf :: "nat \<Rightarrow> real \<Rightarrow> int \<Rightarrow> real" where
  "binom_cdf n p x = (if x < 0 then 0 else (\<Sum>i \<le> nat x. binom_pmf n p i))"

definition binom_sf :: "nat \<Rightarrow> real \<Rightarrow> int \<Rightarrow> real" where
  "binom_sf n p x = 1 - binom_cdf n p x"

text \<open>The quantile: the least count whose cumulative probability reaches \<open>q\<close>.\<close>

definition binom_ppf :: "real \<Rightarrow> nat \<Rightarrow> real \<Rightarrow> nat" where
  "binom_ppf q n p = length (takeWhile (\<lambda>k. binom_cdf n p (int k) < q) [0..<n])"

text \<open>The probability mass of the counts from \<open>lo\<close> to \<open>hi\<close> inclusive.\<close>

definition binom_mass :: "nat \<Rightarrow> real \<Rightarrow> nat \<Rightarrow> nat \<Rightarrow> real" where
  "binom_mass n p lo hi = (\<Sum>i = lo..hi. binom_pmf n p i)"

subsection \<open>The library calls of \<open>perform_binomial_test\<close>\<close>

text \<open>
  \<open>scipy.stats.binom\<close> answers not-a-number when the parameters are not those of a
  distribution. \<open>cdf\<close> and \<open>ppf\<close> are the exact cumulative distribution function and
  its generalised inverse; \<open>interval\<close> is the pair of quantiles at
  \<open>(1 - confidence) / 2\<close> and \<open>(1 + confidence) / 2\<close>, after a range check on the
  confidence level.
\<close>

definition argcheck :: "int \<Rightarrow> real \<Rightarrow> bool" where
  "argcheck n p = (n \<ge> 0 \<and> p \<ge> 0 \<and> p \<le> 1)"

definition stats_binom_cdf :: "int \<Rightarrow> int \<Rightarrow> real \<Rightarrow> pyfloat" where
  "stats_binom_cdf x n p = (if argcheck n p then Fin (binom_cdf (nat n) p x) else NaN)"

definition stats_binom_ppf :: "real \<Rightarrow> int \<Rightarrow> real \<Rightarrow> pyfloat" where
  "stats_binom_ppf q n p =
     (if \<not> argcheck n p then NaN
      else if q = 0 then Fin (- 1)
      else if q = 1 then Fin (real_of_int n)
      else if 0 < q \<and> q < 1 then Fin (real (binom_ppf q (nat n) p))
      else NaN)"

definition stats_binom_interval :: "real \<Rightarrow> int \<Rightarrow> real \<Rightarrow> py_error + pyfloat \<times> pyfloat" where
  "stats_binom_interval confidence n p =
     (if confidence > 1 \<or> confidence < 0 then Inl ValueError
      else let q1 = (1 - confidence) / 2;
               q2 = (1 + confidence) / 2
           in Inr (stats_binom_ppf q1 n p, stats_binom_ppf q2 n p))"

text \<open>
  \<open>scipy.stats.binomtest(k, n, p, alternative='two-sided')\<close> exists from SciPy 1.7 on.
  It validates its arguments (\<open>k \<ge> 0\<close>, \<open>n \<ge> 1\<close>, \<open>k \<le> n\<close>, \<open>0 \<le> p \<le> 1\<close>) and
  then adds, to the tail on the side of the observation, the outcomes on the other side
  of the mean whose probability is at most that of the observation, up to the relative
  tolerance \<open>rerr\<close>; \<open>y\<close> is the number of those outcomes. The result is capped at one.
\<close>

definition rerr :: real where
  "rerr = 1 + 1 / 10 ^ 7"

definition two_sided_pvalue :: "nat \<Rightarrow> nat \<Rightarrow> real \<Rightarrow> real" where
  "two_sided_pvalue k n p =
     (let d = binom_pmf n p k
      in min 1
           (if real k = p * real n then 1
            else if real k < p * real n then
              (let y = length (filter (\<lambda>i. binom_pmf n p i \<le> d * rerr) [nat \<lceil>p * real n\<rceil>..<Suc n])
               in binom_cdf n p (int k) + binom_sf n p (int n - int y))
            else
              (let y = length (filter (\<lambda>i. binom_pmf n p i \<le> d * rerr) [0..<Suc (nat \<lfloor>p * real n\<rfloor>)])
               in binom_cdf n p (int y - 1) + binom_sf n p (int k - 1))))"

definition binomtest :: "int \<Rightarrow> int \<Rightarrow> real \<Rightarrow> py_error + real" where
  "binomtest k n p =
     (if k < 0 then Inl ValueError
      else if n < 1 then Inl ValueError
      else if k > n then Inl ValueError
      else if \<not> (0 \<le> p \<and> p \<le> 1) then Inl ValueError
      else Inr (two_sided_pvalue (nat k) (nat n) p))"

text \<open>
  The installed SciPy either has \<open>binomtest\<close> or not; without it, the attribute lookup
  \<open>stats.binomtest\<close> raises \<open>AttributeError\<close>.
\<close>

datatype scipy = With_binomtest | Without_binomtest

definition stats_binomtest :: "scipy \<Rightarrow> int \<Rightarrow> int \<Rightarrow> real \<Rightarrow> py_error + pyfloat" where
  "stats_binomtest env k n p =
     (case env of
        Without_binomtest \<Rightarrow> Inl AttributeError
      | With_binomtest \<Rightarrow> (case binomtest k n p of Inl e \<Rightarrow> Inl e | Inr v \<Rightarrow> Inr (Fin v)))"

subsection \<open>Python's float operations with not-a-number\<close>

fun py_mul :: "pyfloat \<Rightarrow> pyfloat \<Rightarrow> pyfloat" where
  "py_mul (Fin a) (Fin b) = Fin (a * b)"
| "py_mul _ _ = NaN"

fun py_sub :: "pyfloat \<Rightarrow> pyfloat \<Rightarrow> pyfloat" where
  "py_sub (Fin a) (Fin b) = Fin (a - b)"
| "py_sub _ _ = NaN"

fun py_lt :: "pyfloat \<Rightarrow> pyfloat \<Rightarrow> bool" where
  "py_lt (Fin a) (Fin b) = (a < b)"
| "py_lt _ _ = False"

text \<open>The built-in \<open>min(a, b)\<close> answers \<open>b\<close> when \<open>b < a\<close> and \<open>a\<close> otherwise.\<close>

definition py_min :: "pyfloat \<Rightarrow> pyfloat \<Rightarrow> pyfloat" where
  "py_min a b = (if py_lt b a then b else a)"

subsection \<open>\<open>perform_binomial_test\<close>\<close>

record test_result =
  p_value :: pyfloat
  is_fair :: bool
  confidence_interval :: "pyfloat \<times> pyfloat"

definition manual_p_value :: "int \<Rightarrow> int \<Rightarrow> real \<Rightarrow> pyfloat" where
  "manual_p_value n_caras n_total p =
     py_min
       (if real_of_int n_caras \<le> real_of_int n_total * p
        then py_mul (Fin 2) (stats_binom_cdf n_caras n_total p)
        else py_mul (Fin 2) (py_sub (Fin 1) (stats_binom_cdf (n_caras - 1) n_total p)))
       (Fin 1)"

definition perform_binomial_test :: "scipy \<Rightarrow> int \<Rightarrow> int \<Rightarrow> real \<Rightarrow> py_error + test_result" where
  "perform_binomial_test env n_caras n_total p =
     (case (case stats_binomtest env n_caras n_total p of
              Inr v \<Rightarrow> Inr v
            | Inl AttributeError \<Rightarrow> Inr (manual_p_value n_caras n_total p)
            | Inl e \<Rightarrow> Inl e) of
        Inl e \<Rightarrow> Inl e
      | Inr pv \<Rightarrow>
          (case stats_binom_interval (95 / 100) n_total p of
             Inl e \<Rightarrow> Inl e
           | Inr ci \<Rightarrow> Inr \<lparr> p_value = pv, is_fair = py_lt (Fin (5 / 100)) pv, confidence_interval = ci \<rparr>))"

subsection \<open>The p-value as the specification words it\<close>

text \<open>
  The specification's formula for the p-value: twice the lower tail when the observed
  count is at most the mean, twice the upper tail otherwise, capped at one.
\<close>

definition spec_p_value :: "int \<Rightarrow> int \<Rightarrow> real \<Rightarrow> real" where
  "spec_p_value headsCount totalCount expectedProbability =
     (if real_of_int headsCount \<le> real_of_int totalCount * expectedProbability
      then min 1 (2 * binom_cdf (nat totalCount) expectedProbability headsCount)
      else min 1 (2 * (1 - binom_cdf (nat totalCount) expectedProbability (headsCount - 1))))"

section \<open>Properties of the summary statistics\<close>

lemma count_list_filter: "count_list xs a = length (filter (\<lambda>x. x = a) xs)"
  by (induction xs) auto

lemma count_two_labels:
  assumes "a \<noteq> b"
  shows "count_list xs a + count_list xs b + length (filter (\<lambda>x. x \<noteq> a \<and> x \<noteq> b) xs) = length xs"
  using assms by (induction xs) auto

lemma count_list_le_length: "count_list xs a \<le> length xs"
  by (induction xs) auto

lemma foreign_filter_pos:
  assumes "x \<in> set xs" "x \<noteq> a" "x \<noteq> b"
  shows "0 < length (filter (\<lambda>x. x \<noteq> a \<and> x \<noteq> b) xs)"
proof -
  have "x \<in> set (filter (\<lambda>x. x \<noteq> a \<and> x \<noteq> b) xs)"
    using assms by simp
  then show ?thesis
    by (metis length_pos_if_in_set)
qed

lemma labels_filter_empty:
  assumes "set xs \<subseteq> {a, b}"
  shows "filter (\<lambda>x. x \<noteq> a \<and> x \<noteq> b) xs = []"
  using assms by (induction xs) auto

lemma labels_distinct: "''Cara'' \<noteq> ''Cruz''"
  by simp

lemma counts_sum_labels:
  assumes "set results \<subseteq> {''Cara'', ''Cruz''}"
  shows "count_list results ''Cara'' + count_list results ''Cruz'' = length results"
  using count_two_labels [OF labels_distinct, of results] labels_filter_empty [OF assms]
  by simp

lemma counts_sum_foreign:
  assumes "x \<in> set results" "x \<noteq> ''Cara''" "x \<noteq> ''Cruz''"
  shows "count_list results ''Cara'' + count_list results ''Cruz'' < length results"
  using count_two_labels [OF labels_distinct, of results] foreign_filter_pos [OF assms]
  by linarith

text \<open>
  Claim C4. For every trial sequence, that is every list whose elements are the labels
  \<open>Cara\<close> and \<open>Cruz\<close>, the summary's count of heads plus its count of tails is its
  total, and the total is the length of the sequence.
\<close>

theorem summarize_counts_add_up:
  assumes "set results \<subseteq> {''Cara'', ''Cruz''}"
  shows "caras (calculate_statistics results) + cruces (calculate_statistics results)
           = total' (calculate_statistics results)
         \<and> total' (calculate_statistics results) = int (length results)"
  using counts_sum_labels [OF assms]
  by (simp add: calculate_statistics_def Let_def)

theorem summarize_counts_add_up_witness:
  "set [''Cara'', ''Cruz'', ''Cara''] \<subseteq> {''Cara'', ''Cruz''}
   \<and> caras (calculate_statistics [''Cara'', ''Cruz'', ''Cara''])
       + cruces (calculate_statistics [''Cara'', ''Cruz'', ''Cara'']) = 3
   \<and> total' (calculate_statistics [''Cara'', ''Cruz'', ''Cara'']) = 3"
  using summarize_counts_add_up [of "[''Cara'', ''Cruz'', ''Cara'']"]
  by simp

lemma pct_bounds:
  fixes c t :: nat
  assumes "c \<le> t" "0 < t"
  shows "0 \<le> real c / real t * 100 \<and> real c / real t * 100 \<le> 100"
proof -
  have "real c \<le> real t"
    using assms(1) by simp
  then show ?thesis
    using assms(2) by (simp add: field_simps)
qed

lemma pct_sum_eq:
  fixes c d t :: nat
  assumes "c + d = t" "0 < t"
  shows "real c / real t * 100 + real d / real t * 100 = 100"
proof -
  have "real c + real d = real t"
    using assms(1) by (metis of_nat_add)
  then show ?thesis
    using assms(2) by (simp add: field_simps)
qed

lemma pct_sum_less:
  fixes c d t :: nat
  assumes "c + d < t"
  shows "real c / real t * 100 + real d / real t * 100 < 100"
proof -
  have "real (c + d) < real t"
    using assms by (simp only: of_nat_less_iff)
  then have "real c + real d < real t"
    by simp
  moreover have "0 < real t"
    using assms by simp
  ultimately show ?thesis
    by (simp add: field_simps)
qed

lemma statistics_empty:
  "calculate_statistics []
     = \<lparr> total' = 0, caras = 0, cruces = 0, porcentaje_caras = 0, porcentaje_cruces = 0 \<rparr>"
  by (simp add: calculate_statistics_def)

text \<open>
  Claim C5. For every trial sequence both percentages lie between 0 and 100, and they
  add up to 100 when the total is positive; the empty sequence is summarised, without
  failure, by a total of 0 and two percentages of 0. (Floats are read as reals, so the
  sum is exactly 100.)
\<close>

theorem summarize_percentages:
  assumes "set results \<subseteq> {''Cara'', ''Cruz''}"
  shows "0 \<le> porcentaje_caras (calculate_statistics results)
         \<and> porcentaje_caras (calculate_statistics results) \<le> 100
         \<and> 0 \<le> porcentaje_cruces (calculate_statistics results)
         \<and> porcentaje_cruces (calculate_statistics results) \<le> 100
         \<and> (total' (calculate_statistics results) > 0 \<longrightarrow>
              porcentaje_caras (calculate_statistics results)
              + porcentaje_cruces (calculate_statistics results) = 100)
         \<and> calculate_statistics []
              = \<lparr> total' = 0, caras = 0, cruces = 0, porcentaje_caras = 0, porcentaje_cruces = 0 \<rparr>"
proof (cases "results = []")
  case True
  then show ?thesis
    by (simp add: calculate_statistics_def)
next
  case False
  then have t: "0 < length results"
    by simp
  have s: "real (count_list results ''Cara'') / real (length results) * 100
           + real (count_list results ''Cruz'') / real (length results) * 100 = 100"
    by (rule pct_sum_eq [OF counts_sum_labels [OF assms] t])
  have bc: "0 \<le> real (count_list results ''Cara'') / real (length results) * 100
            \<and> real (count_list results ''Cara'') / real (length results) * 100 \<le> 100"
    by (rule pct_bounds [OF count_list_le_length t])
  have bz: "0 \<le> real (count_list results ''Cruz'') / real (length results) * 100
            \<and> real (count_list results ''Cruz'') / real (length results) * 100 \<le> 100"
    by (rule pct_bounds [OF count_list_le_length t])
  have pc: "porcentaje_caras (calculate_statistics results)
              = real (count_list results ''Cara'') / real (length results) * 100"
    using t by (simp add: calculate_statistics_def Let_def)
  have pz: "porcentaje_cruces (calculate_statistics results)
              = real (count_list results ''Cruz'') / real (length results) * 100"
    using t by (simp add: calculate_statistics_def Let_def)
  show ?thesis
    unfolding pc pz using s bc bz statistics_empty by blast
qed

theorem summarize_percentages_witness:
  "set [''Cara'', ''Cruz'', ''Cara'', ''Cara''] \<subseteq> {''Cara'', ''Cruz''}
   \<and> porcentaje_caras (calculate_statistics [''Cara'', ''Cruz'', ''Cara'', ''Cara'']) = 75
   \<and> porcentaje_cruces (calculate_statistics [''Cara'', ''Cruz'', ''Cara'', ''Cara'']) = 25
   \<and> total' (calculate_statistics [''Cara'', ''Cruz'', ''Cara'', ''Cara'']) > 0"
  using summarize_percentages [of "[''Cara'', ''Cruz'', ''Cara'', ''Cara'']"]
  by (simp add: calculate_statistics_def)

text \<open>
  Claim C10. The summary counts only the elements equal to one of the two labels: when
  the list has an element that is neither, heads plus tails is strictly below the total
  and the two percentages add up to strictly less than 100.
\<close>

theorem summarize_foreign_element:
  assumes "x \<in> set results" "x \<noteq> ''Cara''" "x \<noteq> ''Cruz''"
  shows "caras (calculate_statistics results) = int (length (filter (\<lambda>r. r = ''Cara'') results))
         \<and> cruces (calculate_statistics results) = int (length (filter (\<lambda>r. r = ''Cruz'') results))
         \<and> caras (calculate_statistics results) + cruces (calculate_statistics results)
             < total' (calculate_statistics results)
         \<and> porcentaje_caras (calculate_statistics results)
             + porcentaje_cruces (calculate_statistics results) < 100"
proof -
  have t: "0 < length results"
    using assms(1) by (metis length_pos_if_in_set)
  have lt: "count_list results ''Cara'' + count_list results ''Cruz'' < length results"
    by (rule counts_sum_foreign [OF assms])
  have p: "real (count_list results ''Cara'') / real (length results) * 100
           + real (count_list results ''Cruz'') / real (length results) * 100 < 100"
    by (rule pct_sum_less [OF lt])
  have pc: "porcentaje_caras (calculate_statistics results)
              = real (count_list results ''Cara'') / real (length results) * 100"
    using t by (simp add: calculate_statistics_def Let_def)
  have pz: "porcentaje_cruces (calculate_statistics results)
              = real (count_list results ''Cruz'') / real (length results) * 100"
    using t by (simp add: calculate_statistics_def Let_def)
  have c: "caras (calculate_statistics results) = int (length (filter (\<lambda>r. r = ''Cara'') results))"
    by (simp add: calculate_statistics_def Let_def count_list_filter)
  have z: "cruces (calculate_statistics results) = int (length (filter (\<lambda>r. r = ''Cruz'') results))"
    by (simp add: calculate_statistics_def Let_def count_list_filter)
  have l: "caras (calculate_statistics results) + cruces (calculate_statistics results)
             < total' (calculate_statistics results)"
    using lt by (simp add: calculate_statistics_def Let_def)
  show ?thesis
    unfolding pc pz using p c z l by blast
qed

theorem summarize_foreign_element_witness:
  "''Canto'' \<in> set [''Cara'', ''Canto'', ''Cruz'']
   \<and> caras (calculate_statistics [''Cara'', ''Canto'', ''Cruz'']) = 1
   \<and> cruces (calculate_statistics [''Cara'', ''Canto'', ''Cruz'']) = 1
   \<and> total' (calculate_statistics [''Cara'', ''Canto'', ''Cruz'']) = 3
   \<and> porcentaje_caras (calculate_statistics [''Cara'', ''Canto'', ''Cruz''])
       + porcentaje_cruces (calculate_statistics [''Cara'', ''Canto'', ''Cruz'']) < 100"
  using summarize_foreign_element [of "''Canto''" "[''Cara'', ''Canto'', ''Cruz'']"]
  by (simp add: calculate_statistics_def)

section \<open>Properties of the sampler\<close>

lemma collect_all_Inr: "collect (map (\<lambda>i. Inr (f i)) is) = Inr (map f is)"
  by (induction "is") auto

lemma atol_pos: "0 < atol"
  by (simp add: atol_def)

lemma two_point_cdf:
  "map (\<lambda>c. c / sum_list [p, 1 - p]) (cumsum 0 [p, 1 - p]) = [p, 1]"
  by simp

lemma pick_label:
  assumes "0 \<le> u" "u < 1"
  shows "take_item [''Cara'', ''Cruz''] (searchsorted_right [p, 1] u)
           = Inr (if u < p then ''Cara'' else ''Cruz'')"
  using assms by (simp add: take_item_def searchsorted_right_def)

lemma flip_coin_valid:
  assumes us: "\<forall>i. 0 \<le> us i \<and> us i < 1"
    and n: "0 \<le> n_flips"
    and p: "0 \<le> probability" "probability \<le> 1"
  shows "flip_coin us (PyInt n_flips) probability
           = Inr (map (\<lambda>i. if us i < probability then ''Cara'' else ''Cruz'') [0..<nat n_flips])"
proof -
  have pk: "(\<lambda>i. take_item [''Cara'', ''Cruz''] (searchsorted_right [probability, 1] (us i)))
            = (\<lambda>i. Inr (if us i < probability then ''Cara'' else ''Cruz''))"
    using us by (auto simp: pick_label)
  have "flip_coin us (PyInt n_flips) probability
          = collect (map (\<lambda>i. take_item [''Cara'', ''Cruz''] (searchsorted_right [probability, 1] (us i)))
                      [0..<nat n_flips])"
    using n p atol_pos by (simp add: flip_coin_def random_choice_def)
  then show ?thesis
    by (simp only: pk collect_all_Inr)
qed

text \<open>
  Claim C8. For a count between 1 and 1000 and a probability between 0 and 1,
  \<open>flip_coin\<close> returns a sequence of exactly that many outcomes, each of them
  \<open>Cara\<close> or \<open>Cruz\<close>, in the order of the generator's samples: the \<open>i\<close>-th outcome
  is \<open>Cara\<close> exactly when the \<open>i\<close>-th uniform sample is below the probability. The
  generator delivers samples in the half-open unit interval.
\<close>

theorem flip_coin_length_and_labels:
  assumes "\<forall>i. 0 \<le> us i \<and> us i < 1"
    and "1 \<le> n_flips" "n_flips \<le> 1000"
    and "0 \<le> probability" "probability \<le> 1"
  shows "\<exists>results. flip_coin us (PyInt n_flips) probability = Inr results
           \<and> int (length results) = n_flips
           \<and> set results \<subseteq> {''Cara'', ''Cruz''}
           \<and> (\<forall>i < length results. results ! i = (if us i < probability then ''Cara'' else ''Cruz''))"
proof -
  have n: "0 \<le> n_flips"
    using assms(2) by simp
  let ?r = "map (\<lambda>i. if us i < probability then ''Cara'' else ''Cruz'') [0..<nat n_flips]"
  have "flip_coin us (PyInt n_flips) probability = Inr ?r"
    by (rule flip_coin_valid [OF assms(1) n assms(4) assms(5)])
  moreover have "int (length ?r) = n_flips"
    using n by simp
  moreover have "set ?r \<subseteq> {''Cara'', ''Cruz''}"
    by auto
  moreover have "\<forall>i < length ?r. ?r ! i = (if us i < probability then ''Cara'' else ''Cruz'')"
    by simp
  ultimately show ?thesis
    by blast
qed

theorem flip_coin_length_and_labels_witness:
  "(\<forall>i. (0::real) \<le> (\<lambda>j. 1 / 2) i \<and> (\<lambda>j. 1 / 2) i < (1::real))
   \<and> (\<exists>results. flip_coin (\<lambda>j. 1 / 2) (PyInt 3) (7 / 10) = Inr results
         \<and> int (length results) = 3
         \<and> set results \<subseteq> {''Cara'', ''Cruz''}
         \<and> (\<forall>i < length results. results ! i = ''Cara''))"
  using flip_coin_length_and_labels [of "\<lambda>j. 1 / 2" 3 "7 / 10"]
  by simp

text \<open>
  Claim C6, as stated, fails for a count of zero: the sampler accepts the size 0 and
  \<open>flip_coin\<close> returns the empty sequence.
\<close>

theorem flip_coin_zero_count_counterexample:
  "flip_coin (\<lambda>i. 1 / 2) (PyInt 0) (1 / 2) = Inr []"
  by (simp add: flip_coin_def random_choice_def atol_def)

text \<open>
  Claim C6, amended. \<open>flip_coin\<close> fails and returns no sequence for every probability
  below 0 or above 1, whatever the count (\<open>ValueError\<close>), for every count that is not
  an integer (\<open>TypeError\<close> when the probability is valid), and for every negative
  count (\<open>ValueError\<close>). For the count 0 and a probability between 0 and 1 it does not
  fail: it returns the empty sequence.
\<close>

theorem flip_coin_invalid_parameter:
  "(probability < 0 \<or> probability > 1
      \<longrightarrow> flip_coin us n_flips probability = Inl ValueError)
   \<and> (0 \<le> probability \<and> probability \<le> 1
      \<longrightarrow> flip_coin us (PyFloat x) probability = Inl TypeError)
   \<and> (n < 0 \<longrightarrow> flip_coin us (PyInt n) probability = Inl ValueError)
   \<and> (0 \<le> probability \<and> probability \<le> 1
      \<longrightarrow> flip_coin us (PyInt 0) probability = Inr [])"
  using atol_pos by (auto simp: flip_coin_def random_choice_def split: py_number.splits)

theorem flip_coin_invalid_parameter_witness:
  "flip_coin (\<lambda>i. 1 / 2) (PyInt 5) (3 / 2) = Inl ValueError
   \<and> flip_coin (\<lambda>i. 1 / 2) (PyFloat (5 / 2)) (- 1 / 10) = Inl ValueError
   \<and> flip_coin (\<lambda>i. 1 / 2) (PyFloat (5 / 2)) (1 / 2) = Inl TypeError
   \<and> flip_coin (\<lambda>i. 1 / 2) (PyInt (- 1)) (1 / 2) = Inl ValueError
   \<and> flip_coin (\<lambda>i. 1 / 2) (PyInt 0) (3 / 10) = Inr []"
  using flip_coin_invalid_parameter [of "3 / 2" "\<lambda>i. 1 / 2" "PyInt 5"]
    flip_coin_invalid_parameter [of "- 1 / 10" "\<lambda>i. 1 / 2" "PyFloat (5 / 2)"]
    flip_coin_invalid_parameter [of "1 / 2" "\<lambda>i. 1 / 2" _ "5 / 2" "- 1"]
    flip_coin_invalid_parameter [of "3 / 10" "\<lambda>i. 1 / 2"]
  by simp

section \<open>Facts about the binomial distribution\<close>

lemma pmf_nonneg:
  assumes "0 \<le> p" "p \<le> 1"
  shows "0 \<le> binom_pmf n p k"
  using assms by (simp add: binom_pmf_def)

lemma pmf_beyond: "n < k \<Longrightarrow> binom_pmf n p k = 0"
  by (simp add: binom_pmf_def binomial_eq_0)

lemma pmf_total: "(\<Sum>i \<le> n. binom_pmf n p i) = 1"
proof -
  have "(p + (1 - p)) ^ n = (\<Sum>i \<le> n. real (n choose i) * p ^ i * (1 - p) ^ (n - i))"
    by (rule binomial_ring)
  then show ?thesis
    by (simp add: binom_pmf_def)
qed

lemma cdf_nat: "binom_cdf n p (int k) = (\<Sum>i \<le> k. binom_pmf n p i)"
  by (simp add: binom_cdf_def)

lemma cdf_negative: "x < 0 \<Longrightarrow> binom_cdf n p x = 0"
  by (simp add: binom_cdf_def)

lemma cdf_Suc: "binom_cdf n p (int (Suc k)) = binom_cdf n p (int k) + binom_pmf n p (Suc k)"
  by (simp only: cdf_nat sum.atMost_Suc)

lemma cdf_top:
  assumes "n \<le> k"
  shows "binom_cdf n p (int k) = 1"
proof -
  have "(\<Sum>i \<le> k. binom_pmf n p i) = (\<Sum>i \<le> n. binom_pmf n p i)"
  proof (rule sum.mono_neutral_right)
    show "finite {..k}" by simp
    show "{..n} \<subseteq> {..k}" using assms by auto
    show "\<forall>i \<in> {..k} - {..n}. binom_pmf n p i = 0"
      by (auto simp: pmf_beyond)
  qed
  then show ?thesis
    by (simp add: cdf_nat pmf_total)
qed

lemma cdf_mono_nat:
  assumes "0 \<le> p" "p \<le> 1" "j \<le> k"
  shows "binom_cdf n p (int j) \<le> binom_cdf n p (int k)"
proof -
  have "(\<Sum>i \<in> {..j}. binom_pmf n p i) \<le> (\<Sum>i \<in> {..k}. binom_pmf n p i)"
  proof (rule sum_mono2)
    show "finite {..k}" by simp
    show "{..j} \<subseteq> {..k}" using assms(3) by auto
    show "\<And>b. b \<in> {..k} - {..j} \<Longrightarrow> 0 \<le> binom_pmf n p b"
      by (rule pmf_nonneg [OF assms(1) assms(2)])
  qed
  then show ?thesis
    by (simp only: cdf_nat)
qed

lemma cdf_nonneg:
  assumes "0 \<le> p" "p \<le> 1"
  shows "0 \<le> binom_cdf n p x"
proof (cases "x < 0")
  case True
  then show ?thesis by (simp add: cdf_negative)
next
  case False
  then have "binom_cdf n p x = (\<Sum>i \<le> nat x. binom_pmf n p i)"
    by (simp add: binom_cdf_def)
  then show ?thesis
    by (simp add: sum_nonneg pmf_nonneg [OF assms])
qed

lemma cdf_le_one:
  assumes "0 \<le> p" "p \<le> 1"
  shows "binom_cdf n p x \<le> 1"
proof (cases "x < 0")
  case True
  then show ?thesis by (simp add: cdf_negative)
next
  case False
  then have x: "x = int (nat x)" by simp
  have "binom_cdf n p (int (nat x)) \<le> binom_cdf n p (int (max n (nat x)))"
    by (rule cdf_mono_nat [OF assms]) simp
  also have "\<dots> = 1"
    by (rule cdf_top) simp
  finally show ?thesis
    using x by simp
qed

lemma sf_bounds:
  assumes "0 \<le> p" "p \<le> 1"
  shows "0 \<le> binom_sf n p x \<and> binom_sf n p x \<le> 1"
  using cdf_nonneg [OF assms, of n x] cdf_le_one [OF assms, of n x]
  by (simp add: binom_sf_def)

lemma two_sided_pvalue_bounds:
  assumes "0 \<le> p" "p \<le> 1"
  shows "0 \<le> two_sided_pvalue k n p \<and> two_sided_pvalue k n p \<le> 1"
proof -
  have "0 \<le> binom_cdf n p x + binom_sf n p y" for x y
    using cdf_nonneg [OF assms, of n x] sf_bounds [OF assms, of n y] by simp
  then show ?thesis
    by (simp add: two_sided_pvalue_def Let_def)
qed

lemma ppf_le: "binom_ppf q n p \<le> n"
  using length_takeWhile_le [of "\<lambda>k. binom_cdf n p (int k) < q" "[0..<n]"]
  by (simp add: binom_ppf_def)

lemma ppf_below:
  assumes "k < binom_ppf q n p"
  shows "binom_cdf n p (int k) < q"
proof -
  let ?P = "\<lambda>k. binom_cdf n p (int k) < q"
  have kl: "k < length (takeWhile ?P [0..<n])"
    using assms by (simp add: binom_ppf_def)
  then have kn: "k < n"
    using length_takeWhile_le [of ?P "[0..<n]"] by simp
  have "takeWhile ?P [0..<n] ! k = [0..<n] ! k"
    by (rule takeWhile_nth [OF kl])
  then have "takeWhile ?P [0..<n] ! k = k"
    using kn by simp
  moreover have "takeWhile ?P [0..<n] ! k \<in> set (takeWhile ?P [0..<n])"
    using kl by (rule nth_mem)
  ultimately have "k \<in> set (takeWhile ?P [0..<n])"
    by simp
  then show ?thesis
    by (blast dest: set_takeWhileD)
qed

lemma ppf_reaches:
  assumes "q \<le> 1"
  shows "q \<le> binom_cdf n p (int (binom_ppf q n p))"
proof (cases "binom_ppf q n p < n")
  case True
  let ?P = "\<lambda>k. binom_cdf n p (int k) < q"
  have l: "length (takeWhile ?P [0..<n]) < length [0..<n]"
    using True by (simp add: binom_ppf_def)
  have "\<not> ?P ([0..<n] ! length (takeWhile ?P [0..<n]))"
    by (rule nth_length_takeWhile [OF l])
  then have "\<not> ?P (length (takeWhile ?P [0..<n]))"
    using l by simp
  then show ?thesis
    by (simp add: binom_ppf_def)
next
  case False
  then have "binom_ppf q n p = n"
    using ppf_le [of q n p] by simp
  then show ?thesis
    using assms by (simp add: cdf_top)
qed

lemma ppf_least:
  assumes "q \<le> binom_cdf n p (int k)"
  shows "binom_ppf q n p \<le> k"
proof (rule ccontr)
  assume "\<not> binom_ppf q n p \<le> k"
  then have "k < binom_ppf q n p" by simp
  then have "binom_cdf n p (int k) < q" by (rule ppf_below)
  then show False using assms by simp
qed

section \<open>The binomial test: results on valid input, p-value range, zero total\<close>

lemma interval_95:
  assumes "0 \<le> n" "0 \<le> p" "p \<le> 1"
  shows "stats_binom_interval (95 / 100) n p
           = Inr (Fin (real (binom_ppf (1 / 40) (nat n) p)), Fin (real (binom_ppf (39 / 40) (nat n) p)))"
  using assms by (simp add: stats_binom_interval_def stats_binom_ppf_def argcheck_def Let_def)

lemma perform_with_binomtest:
  assumes "1 \<le> n" "0 \<le> k" "k \<le> n" "0 \<le> p" "p \<le> 1"
  shows "perform_binomial_test With_binomtest k n p
           = Inr \<lparr> p_value = Fin (two_sided_pvalue (nat k) (nat n) p),
                   is_fair = (5 / 100 < two_sided_pvalue (nat k) (nat n) p),
                   confidence_interval = (Fin (real (binom_ppf (1 / 40) (nat n) p)),
                                          Fin (real (binom_ppf (39 / 40) (nat n) p))) \<rparr>"
proof -
  have n0: "0 \<le> n" using assms(1) by simp
  have b: "stats_binomtest With_binomtest k n p = Inr (Fin (two_sided_pvalue (nat k) (nat n) p))"
    using assms by (simp add: stats_binomtest_def binomtest_def)
  show ?thesis
    unfolding perform_binomial_test_def b interval_95 [OF n0 assms(4) assms(5)]
    by simp
qed

lemma manual_p_value_spec:
  assumes "0 \<le> n" "0 \<le> p" "p \<le> 1"
  shows "manual_p_value k n p = Fin (spec_p_value k n p)"
  using assms
  by (simp add: manual_p_value_def spec_p_value_def stats_binom_cdf_def argcheck_def py_min_def min_def)

lemma perform_without_binomtest:
  assumes "0 \<le> n" "0 \<le> p" "p \<le> 1"
  shows "perform_binomial_test Without_binomtest k n p
           = Inr \<lparr> p_value = Fin (spec_p_value k n p),
                   is_fair = (5 / 100 < spec_p_value k n p),
                   confidence_interval = (Fin (real (binom_ppf (1 / 40) (nat n) p)),
                                          Fin (real (binom_ppf (39 / 40) (nat n) p))) \<rparr>"
proof -
  have b: "stats_binomtest Without_binomtest k n p = Inl AttributeError"
    by (simp add: stats_binomtest_def)
  show ?thesis
    unfolding perform_binomial_test_def b interval_95 [OF assms] manual_p_value_spec [OF assms]
    by simp
qed

lemma spec_p_value_bounds:
  assumes "0 \<le> p" "p \<le> 1"
  shows "0 \<le> spec_p_value k n p \<and> spec_p_value k n p \<le> 1"
  using cdf_nonneg [OF assms, of "nat n" k] cdf_le_one [OF assms, of "nat n" "k - 1"]
  by (simp add: spec_p_value_def)

text \<open>
  Claim C3. For a total of at least 1, a count of heads between 0 and the total and an
  expected probability between 0 and 1, \<open>perform_binomial_test\<close> returns a result
  whose p-value is a number between 0 and 1 and whose verdict \<open>is_fair\<close> holds exactly
  when that p-value is strictly greater than 0.05, whether SciPy has \<open>binomtest\<close> or
  the manual computation runs.
\<close>

theorem p_value_range_and_verdict:
  assumes "1 \<le> n_total" "0 \<le> n_caras" "n_caras \<le> n_total" "0 \<le> p" "p \<le> 1"
  shows "\<exists>r v. perform_binomial_test env n_caras n_total p = Inr r
           \<and> p_value r = Fin v \<and> 0 \<le> v \<and> v \<le> 1
           \<and> (is_fair r \<longleftrightarrow> v > 5 / 100)"
proof (cases env)
  case With_binomtest
  show ?thesis
    unfolding With_binomtest perform_with_binomtest [OF assms]
    using two_sided_pvalue_bounds [OF assms(4) assms(5), of "nat n_caras" "nat n_total"]
    by simp
next
  case Without_binomtest
  have n0: "0 \<le> n_total" using assms(1) by simp
  show ?thesis
    unfolding Without_binomtest perform_without_binomtest [OF n0 assms(4) assms(5)]
    using spec_p_value_bounds [OF assms(4) assms(5), of n_caras n_total]
    by simp
qed

theorem p_value_range_and_verdict_witness:
  "(1::int) \<le> 10 \<and> (0::int) \<le> 0 \<and> (0::real) \<le> 1 / 2 \<and> (1 / 2 :: real) \<le> 1
   \<and> (\<exists>r v. perform_binomial_test With_binomtest 0 10 (1 / 2) = Inr r
          \<and> p_value r = Fin v \<and> 0 \<le> v \<and> v \<le> 1 \<and> (is_fair r \<longleftrightarrow> v > 5 / 100))"
  using p_value_range_and_verdict [of 10 0 "1 / 2" With_binomtest]
  by simp









section \<open>The confidence interval\<close>

lemma mass_as_cdf:
  assumes "lo \<le> hi"
  shows "binom_mass n p lo hi = binom_cdf n p (int hi) - binom_cdf n p (int lo - 1)"
proof (cases lo)
  case 0
  then show ?thesis
    by (simp add: binom_mass_def binom_cdf_def atMost_atLeast0)
next
  case (Suc l)
  have d: "{..hi} = {..l} \<union> {Suc l..hi}"
    using assms Suc by auto
  have "(\<Sum>i \<le> hi. binom_pmf n p i)
          = (\<Sum>i \<le> l. binom_pmf n p i) + (\<Sum>i = Suc l..hi. binom_pmf n p i)"
    unfolding d by (rule sum.union_disjoint) auto
  then show ?thesis
    using Suc by (simp add: binom_mass_def binom_cdf_def)
qed

lemma ppf_before:
  "binom_cdf n p (int (binom_ppf q n p) - 1) < q \<or> (binom_ppf q n p = 0 \<and> q \<le> 0)"
proof (cases "binom_ppf q n p")
  case 0
  then show ?thesis
    by (simp add: cdf_negative not_le [symmetric])
next
  case (Suc l)
  then have "l < binom_ppf q n p" by simp
  then have "binom_cdf n p (int l) < q" by (rule ppf_below)
  then show ?thesis
    using Suc by simp
qed

lemma ppf_mono_q:
  assumes "q \<le> q'" "q' \<le> 1"
  shows "binom_ppf q n p \<le> binom_ppf q' n p"
proof (rule ppf_least)
  have "q' \<le> binom_cdf n p (int (binom_ppf q' n p))"
    by (rule ppf_reaches [OF assms(2)])
  then show "q \<le> binom_cdf n p (int (binom_ppf q' n p))"
    using assms(1) by simp
qed

lemma interval_mass:
  "19 / 20 < binom_mass n p (binom_ppf (1 / 40) n p) (binom_ppf (39 / 40) n p)"
proof -
  let ?lo = "binom_ppf (1 / 40) n p" and ?hi = "binom_ppf (39 / 40) n p"
  have le: "?lo \<le> ?hi"
    by (rule ppf_mono_q) simp_all
  have "binom_cdf n p (int ?lo - 1) < 1 / 40"
    using ppf_before [of n p "1 / 40"] by simp
  moreover have "39 / 40 \<le> binom_cdf n p (int ?hi)"
    by (rule ppf_reaches) simp
  ultimately show ?thesis
    unfolding mass_as_cdf [OF le] by simp
qed

text \<open>
  Claim C2, amended. For a total of at least 1 and a probability between 0 and 1 the
  returned interval is the equal-tailed one: its lower bound is the least count whose
  cumulative probability reaches 0.025, its upper bound the least count whose
  cumulative probability reaches 0.975. The lower bound is at most the upper bound,
  both are counts between 0 and the total, and the interval holds at least 95% of the
  probability mass. It is not claimed to be the narrowest such interval.
\<close>

theorem confidence_interval_equal_tailed:
  assumes "1 \<le> n_total" "0 \<le> n_caras" "n_caras \<le> n_total" "0 \<le> p" "p \<le> 1"
  shows "\<exists>r lo hi. perform_binomial_test env n_caras n_total p = Inr r
           \<and> confidence_interval r = (Fin (real lo), Fin (real hi))
           \<and> lo \<le> hi \<and> int hi \<le> n_total
           \<and> 95 / 100 \<le> binom_mass (nat n_total) p lo hi
           \<and> binom_cdf (nat n_total) p (int lo - 1) < 25 / 1000
           \<and> 25 / 1000 \<le> binom_cdf (nat n_total) p (int lo)
           \<and> binom_cdf (nat n_total) p (int hi - 1) < 975 / 1000
           \<and> 975 / 1000 \<le> binom_cdf (nat n_total) p (int hi)"
proof -
  let ?n = "nat n_total"
  let ?lo = "binom_ppf (1 / 40) ?n p" and ?hi = "binom_ppf (39 / 40) ?n p"
  have n0: "0 \<le> n_total" using assms(1) by simp
  obtain r where r: "perform_binomial_test env n_caras n_total p = Inr r"
    and ci: "confidence_interval r = (Fin (real ?lo), Fin (real ?hi))"
  proof (cases env)
    case With_binomtest
    show ?thesis
      by (rule that [OF perform_with_binomtest [OF assms, folded With_binomtest]]) simp
  next
    case Without_binomtest
    show ?thesis
      by (rule that [OF perform_without_binomtest [OF n0 assms(4) assms(5), folded Without_binomtest]]) simp
  qed
  have le: "?lo \<le> ?hi"
    by (rule ppf_mono_q) simp_all
  have hn: "int ?hi \<le> n_total"
    using ppf_le [of "39 / 40" ?n p] n0 by simp
  have m: "95 / 100 \<le> binom_mass ?n p ?lo ?hi"
    using interval_mass [of ?n p] by simp
  have l1: "binom_cdf ?n p (int ?lo - 1) < 25 / 1000"
    using ppf_before [of ?n p "1 / 40"] by simp
  have l2: "25 / 1000 \<le> binom_cdf ?n p (int ?lo)"
    using ppf_reaches [of "1 / 40" ?n p] by simp
  have h1: "binom_cdf ?n p (int ?hi - 1) < 975 / 1000"
    using ppf_before [of ?n p "39 / 40"] by simp
  have h2: "975 / 1000 \<le> binom_cdf ?n p (int ?hi)"
    using ppf_reaches [of "39 / 40" ?n p] by simp
  show ?thesis
    using r ci le hn m l1 l2 h1 h2 by blast
qed

theorem confidence_interval_equal_tailed_witness:
  "\<exists>r lo hi. perform_binomial_test With_binomtest 2 5 (1 / 2) = Inr r
           \<and> confidence_interval r = (Fin (real lo), Fin (real hi))
           \<and> lo \<le> hi \<and> int hi \<le> 5
           \<and> 95 / 100 \<le> binom_mass (nat 5) (1 / 2) lo hi
           \<and> binom_cdf (nat 5) (1 / 2) (int lo - 1) < 25 / 1000
           \<and> 25 / 1000 \<le> binom_cdf (nat 5) (1 / 2) (int lo)
           \<and> binom_cdf (nat 5) (1 / 2) (int hi - 1) < 975 / 1000
           \<and> 975 / 1000 \<le> binom_cdf (nat 5) (1 / 2) (int hi)"
  using confidence_interval_equal_tailed [of 5 2 "1 / 2" With_binomtest]
  by simp

lemma ppf_5_lo: "binom_ppf (1 / 40) 5 (1 / 2) = 0"
  by code_simp

lemma ppf_5_hi: "binom_ppf (39 / 40) 5 (1 / 2) = 5"
  by code_simp

lemma mass_5: "binom_mass 5 (1 / 2) 1 5 = 31 / 32"
  by code_simp

text \<open>
  Claim C2, as stated, fails for 5 flips of a fair coin: the returned interval is
  from 0 to 5, of width 5, while the counts from 1 to 5, of width 4, already hold
  31/32 of the mass, which is more than 95%.
\<close>

theorem interval_not_smallest_counterexample:
  "map_sum id confidence_interval (perform_binomial_test With_binomtest 2 5 (1 / 2))
     = Inr (Fin 0, Fin 5)
   \<and> 95 / 100 \<le> binom_mass 5 (1 / 2) 1 5"
proof -
  have b: "95 / 100 \<le> binom_mass 5 (1 / 2) 1 5"
    unfolding mass_5 by simp
  show ?thesis
    by (rule conjI [OF _ b]) (simp add: perform_with_binomtest ppf_5_lo ppf_5_hi)
qed

section \<open>The quantiles grow with the number of trials\<close>

lemma pmf_Suc_0: "binom_pmf (Suc n) p 0 = (1 - p) * binom_pmf n p 0"
  by (simp add: binom_pmf_def)

lemma pmf_Suc_Suc:
  "binom_pmf (Suc n) p (Suc k) = p * binom_pmf n p k + (1 - p) * binom_pmf n p (Suc k)"
proof -
  have a: "real (n choose Suc k) * p ^ Suc k * (1 - p) ^ (n - k)
             = (1 - p) * (real (n choose Suc k) * p ^ Suc k * (1 - p) ^ (n - Suc k))"
  proof (cases "Suc k \<le> n")
    case True
    then have "n - k = Suc (n - Suc k)" by simp
    then have "(1 - p) ^ (n - k) = (1 - p) * (1 - p) ^ (n - Suc k)" by simp
    then show ?thesis by simp
  next
    case False
    then have "n choose Suc k = 0" by (simp add: binomial_eq_0)
    then show ?thesis by simp
  qed
  have b: "real (n choose k) * p ^ Suc k * (1 - p) ^ (n - k)
             = p * (real (n choose k) * p ^ k * (1 - p) ^ (n - k))"
    by simp
  have "binom_pmf (Suc n) p (Suc k)
          = real (n choose k) * p ^ Suc k * (1 - p) ^ (n - k)
            + real (n choose Suc k) * p ^ Suc k * (1 - p) ^ (n - k)"
    by (simp add: binom_pmf_def algebra_simps)
  then show ?thesis
    unfolding a b by (simp only: binom_pmf_def)
qed

lemma cdf_Suc_n_0: "binom_cdf (Suc n) p 0 = (1 - p) * binom_cdf n p 0"
  using pmf_Suc_0 [of n p] by (simp add: binom_cdf_def)

lemma cdf_Suc_n_Suc:
  "binom_cdf (Suc n) p (int (Suc k))
     = (1 - p) * binom_cdf n p (int (Suc k)) + p * binom_cdf n p (int k)"
proof (induction k)
  case 0
  have "binom_cdf (Suc n) p (int (Suc 0)) = binom_cdf (Suc n) p (int 0) + binom_pmf (Suc n) p (Suc 0)"
    by (rule cdf_Suc)
  also have "\<dots> = (1 - p) * binom_cdf n p (int 0) + (p * binom_pmf n p 0 + (1 - p) * binom_pmf n p (Suc 0))"
    using cdf_Suc_n_0 [of n p] by (simp only: pmf_Suc_Suc of_nat_0)
  also have "\<dots> = (1 - p) * (binom_cdf n p (int 0) + binom_pmf n p (Suc 0)) + p * binom_pmf n p 0"
    by (simp add: algebra_simps)
  also have "\<dots> = (1 - p) * binom_cdf n p (int (Suc 0)) + p * binom_cdf n p (int 0)"
    by (simp add: cdf_Suc [of n p 0] binom_cdf_def)
  finally show ?case .
next
  case (Suc k)
  have "binom_cdf (Suc n) p (int (Suc (Suc k)))
          = binom_cdf (Suc n) p (int (Suc k)) + binom_pmf (Suc n) p (Suc (Suc k))"
    by (rule cdf_Suc)
  also have "\<dots> = (1 - p) * binom_cdf n p (int (Suc k)) + p * binom_cdf n p (int k)
                    + (p * binom_pmf n p (Suc k) + (1 - p) * binom_pmf n p (Suc (Suc k)))"
    by (simp only: Suc.IH pmf_Suc_Suc)
  also have "\<dots> = (1 - p) * (binom_cdf n p (int (Suc k)) + binom_pmf n p (Suc (Suc k)))
                    + p * (binom_cdf n p (int k) + binom_pmf n p (Suc k))"
    by (simp add: algebra_simps)
  also have "\<dots> = (1 - p) * binom_cdf n p (int (Suc (Suc k))) + p * binom_cdf n p (int (Suc k))"
    by (simp only: cdf_Suc)
  finally show ?case .
qed

lemma cdf_antimono_n:
  assumes "0 \<le> p" "p \<le> 1"
  shows "binom_cdf (Suc n) p (int k) \<le> binom_cdf n p (int k)"
proof (cases k)
  case 0
  have "(1 - p) * binom_cdf n p 0 \<le> 1 * binom_cdf n p 0"
    by (rule mult_right_mono) (use assms cdf_nonneg [OF assms] in simp_all)
  then show ?thesis
    using 0 by (simp add: cdf_Suc_n_0)
next
  case (Suc j)
  have "binom_cdf n p (int j) \<le> binom_cdf n p (int (Suc j))"
    by (rule cdf_mono_nat [OF assms]) simp
  then have "p * binom_cdf n p (int j) \<le> p * binom_cdf n p (int (Suc j))"
    using assms(1) by (rule mult_left_mono)
  then have "(1 - p) * binom_cdf n p (int (Suc j)) + p * binom_cdf n p (int j)
               \<le> binom_cdf n p (int (Suc j))"
    by (simp add: algebra_simps)
  then show ?thesis
    unfolding Suc cdf_Suc_n_Suc .
qed

lemma ppf_mono_Suc:
  assumes "0 \<le> p" "p \<le> 1" "q \<le> 1"
  shows "binom_ppf q n p \<le> binom_ppf q (Suc n) p"
proof (rule ppf_least)
  have "q \<le> binom_cdf (Suc n) p (int (binom_ppf q (Suc n) p))"
    by (rule ppf_reaches [OF assms(3)])
  also have "\<dots> \<le> binom_cdf n p (int (binom_ppf q (Suc n) p))"
    by (rule cdf_antimono_n [OF assms(1) assms(2)])
  finally show "q \<le> binom_cdf n p (int (binom_ppf q (Suc n) p))" .
qed

lemma ppf_mono_n:
  assumes "0 \<le> p" "p \<le> 1" "q \<le> 1" "n \<le> m"
  shows "binom_ppf q n p \<le> binom_ppf q m p"
  using assms(4)
proof (induction rule: dec_induct)
  case base
  show ?case by simp
next
  case (step k)
  have "binom_ppf q k p \<le> binom_ppf q (Suc k) p"
    by (rule ppf_mono_Suc [OF assms(1) assms(2) assms(3)])
  with step.IH show ?case by simp
qed

section \<open>The fair coin: symmetry of the distribution\<close>

lemma pmf_half: "binom_pmf n (1 / 2) i = real (n choose i) / 2 ^ n"
proof (cases "i \<le> n")
  case True
  have "(1 / 2 :: real) ^ i * (1 / 2) ^ (n - i) = (1 / 2) ^ (i + (n - i))"
    by (simp only: power_add)
  also have "\<dots> = 1 / 2 ^ n"
    using True by (simp add: power_one_over)
  finally have "(1 / 2 :: real) ^ i * (1 / 2) ^ (n - i) = 1 / 2 ^ n" .
  then have "real (n choose i) * ((1 / 2) ^ i * (1 / 2) ^ (n - i)) = real (n choose i) * (1 / 2 ^ n)"
    by (simp only:)
  then show ?thesis
    by (simp add: binom_pmf_def mult.assoc)
next
  case False
  then show ?thesis
    by (simp add: binom_pmf_def binomial_eq_0)
qed

lemma pmf_half_symmetric:
  assumes "i \<le> n"
  shows "binom_pmf n (1 / 2) (n - i) = binom_pmf n (1 / 2) i"
  using binomial_symmetric [OF assms] by (simp add: pmf_half)

lemma upper_tail_reflect:
  assumes "j \<le> n"
  shows "(\<Sum>i \<in> {j<..n}. binom_pmf n (1 / 2) i) = (\<Sum>i \<in> {..<n - j}. binom_pmf n (1 / 2) i)"
proof (rule sum.reindex_bij_witness [where i = "\<lambda>m. n - m" and j = "\<lambda>i. n - i"])
  fix a assume "a \<in> {j<..n}"
  then show "n - (n - a) = a" and "n - a \<in> {..<n - j}"
    and "binom_pmf n (1 / 2) (n - a) = binom_pmf n (1 / 2) a"
    using assms by (auto simp: pmf_half_symmetric)
next
  fix b assume "b \<in> {..<n - j}"
  then show "n - (n - b) = b" and "n - b \<in> {j<..n}"
    by auto
qed

lemma cdf_half_reflect:
  assumes "j \<le> n"
  shows "binom_cdf n (1 / 2) (int j) + binom_cdf n (1 / 2) (int n - int j - 1) = 1"
proof -
  have d: "{..n} = {..j} \<union> {j<..n}"
    using assms by auto
  have "(\<Sum>i \<le> n. binom_pmf n (1 / 2) i)
          = (\<Sum>i \<le> j. binom_pmf n (1 / 2) i) + (\<Sum>i \<in> {j<..n}. binom_pmf n (1 / 2) i)"
    unfolding d by (rule sum.union_disjoint) auto
  then have s: "(\<Sum>i \<le> j. binom_pmf n (1 / 2) i) + (\<Sum>i \<in> {..<n - j}. binom_pmf n (1 / 2) i) = 1"
    by (simp only: pmf_total upper_tail_reflect [OF assms])
  have "binom_cdf n (1 / 2) (int n - int j - 1) = (\<Sum>i \<in> {..<n - j}. binom_pmf n (1 / 2) i)"
  proof (cases "j = n")
    case True
    then show ?thesis by (simp add: binom_cdf_def)
  next
    case False
    then have "j < n" using assms by simp
    then obtain d where d: "n - j = Suc d" by (metis Suc_diff_Suc)
    then have "int n - int j - 1 = int d" using assms by linarith
    then show ?thesis
      by (simp add: cdf_nat d lessThan_Suc_atMost)
  qed
  then show ?thesis
    using s by (simp add: cdf_nat)
qed

lemma half_p: "(0::real) \<le> 1 / 2" "(1 / 2 :: real) \<le> 1"
  by simp_all

lemma cdf_half_at_least:
  assumes "n \<le> 2 * j + 1"
  shows "1 / 2 \<le> binom_cdf n (1 / 2) (int j)"
proof (cases "j \<le> n")
  case True
  have r: "binom_cdf n (1 / 2) (int j) + binom_cdf n (1 / 2) (int n - int j - 1) = 1"
    by (rule cdf_half_reflect [OF True])
  have "binom_cdf n (1 / 2) (int n - int j - 1) \<le> binom_cdf n (1 / 2) (int j)"
  proof (cases "j = n")
    case True
    then show ?thesis by (simp add: cdf_negative cdf_nonneg)
  next
    case False
    then have e: "int n - int j - 1 = int (n - j - 1)" using True by linarith
    show ?thesis
      unfolding e by (rule cdf_mono_nat [OF half_p]) (use assms in linarith)
  qed
  then show ?thesis
    using r by linarith
next
  case False
  then show ?thesis by (simp add: cdf_top)
qed

lemma cdf_half_at_most:
  assumes "2 * j < n"
  shows "binom_cdf n (1 / 2) (int j) \<le> 1 / 2"
proof -
  have jn: "j \<le> n" using assms by simp
  have r: "binom_cdf n (1 / 2) (int j) + binom_cdf n (1 / 2) (int n - int j - 1) = 1"
    by (rule cdf_half_reflect [OF jn])
  have e: "int n - int j - 1 = int (n - j - 1)" using assms by linarith
  have "binom_cdf n (1 / 2) (int j) \<le> binom_cdf n (1 / 2) (int n - int j - 1)"
    unfolding e by (rule cdf_mono_nat [OF half_p]) (use assms in linarith)
  then show ?thesis
    using r by linarith
qed

lemma interval_half_contains_mean:
  "real (binom_ppf (1 / 40) n (1 / 2)) \<le> real n * (1 / 2)
   \<and> real n * (1 / 2) \<le> real (binom_ppf (39 / 40) n (1 / 2))"
proof
  have "n \<le> 2 * (n div 2) + 1"
    by presburger
  then have "1 / 2 \<le> binom_cdf n (1 / 2) (int (n div 2))"
    by (rule cdf_half_at_least)
  then have "1 / 40 \<le> binom_cdf n (1 / 2) (int (n div 2))"
    by simp
  then have "binom_ppf (1 / 40) n (1 / 2) \<le> n div 2"
    by (rule ppf_least)
  then have "2 * binom_ppf (1 / 40) n (1 / 2) \<le> n"
    by simp
  then have "real (2 * binom_ppf (1 / 40) n (1 / 2)) \<le> real n"
    by (simp only: of_nat_le_iff)
  then show "real (binom_ppf (1 / 40) n (1 / 2)) \<le> real n * (1 / 2)"
    by simp
next
  let ?hi = "binom_ppf (39 / 40) n (1 / 2)"
  have "\<not> 2 * ?hi < n"
  proof
    assume "2 * ?hi < n"
    then have "binom_cdf n (1 / 2) (int ?hi) \<le> 1 / 2"
      by (rule cdf_half_at_most)
    moreover have "39 / 40 \<le> binom_cdf n (1 / 2) (int ?hi)"
      by (rule ppf_reaches) simp
    ultimately show False by simp
  qed
  then have "n \<le> 2 * ?hi" by simp
  then have "real n \<le> real (2 * ?hi)"
    by (simp only: of_nat_le_iff)
  then show "real n * (1 / 2) \<le> real ?hi"
    by simp
qed

section \<open>The confidence interval as a function of the total\<close>

lemma perform_interval:
  assumes "1 \<le> n" "0 \<le> k" "k \<le> n" "0 \<le> p" "p \<le> 1"
  shows "\<exists>r. perform_binomial_test env k n p = Inr r
           \<and> confidence_interval r = (Fin (real (binom_ppf (1 / 40) (nat n) p)),
                                       Fin (real (binom_ppf (39 / 40) (nat n) p)))"
proof (cases env)
  case With_binomtest
  show ?thesis
    unfolding With_binomtest perform_with_binomtest [OF assms] by simp
next
  case Without_binomtest
  have n0: "0 \<le> n" using assms(1) by simp
  show ?thesis
    unfolding Without_binomtest perform_without_binomtest [OF n0 assms(4) assms(5)] by simp
qed

text \<open>
  Claim C9, amended. For a fixed probability between 0 and 1, both bounds of the
  returned interval are non-decreasing in the total: a larger total never gives a
  smaller lower or upper bound. For the fair coin, probability 1/2, the interval
  contains the mean, total times 1/2. Containment of the mean is not claimed for other
  probabilities.
\<close>

theorem interval_monotone_in_total:
  assumes "1 \<le> n" "n \<le> m" "0 \<le> k" "k \<le> n" "0 \<le> k'" "k' \<le> m" "0 \<le> p" "p \<le> 1"
  shows "\<exists>r r' lo hi lo' hi'.
           perform_binomial_test env k n p = Inr r
           \<and> perform_binomial_test env k' m p = Inr r'
           \<and> confidence_interval r = (Fin lo, Fin hi)
           \<and> confidence_interval r' = (Fin lo', Fin hi')
           \<and> lo \<le> lo' \<and> hi \<le> hi'
           \<and> (p = 1 / 2 \<longrightarrow> lo \<le> real_of_int n * p \<and> real_of_int n * p \<le> hi)"
proof -
  let ?lo = "\<lambda>n. real (binom_ppf (1 / 40) (nat n) p)"
  let ?hi = "\<lambda>n. real (binom_ppf (39 / 40) (nat n) p)"
  have m1: "1 \<le> m" using assms(1) assms(2) by simp
  obtain r where r: "perform_binomial_test env k n p = Inr r"
    "confidence_interval r = (Fin (?lo n), Fin (?hi n))"
    using perform_interval [OF assms(1) assms(3) assms(4) assms(7) assms(8), of env] by blast
  obtain r' where r': "perform_binomial_test env k' m p = Inr r'"
    "confidence_interval r' = (Fin (?lo m), Fin (?hi m))"
    using perform_interval [OF m1 assms(5) assms(6) assms(7) assms(8), of env] by blast
  have nm: "nat n \<le> nat m" using assms(2) by simp
  have lo: "?lo n \<le> ?lo m"
    using ppf_mono_n [OF assms(7) assms(8) _ nm, of "1 / 40"] by simp
  have hi: "?hi n \<le> ?hi m"
    using ppf_mono_n [OF assms(7) assms(8) _ nm, of "39 / 40"] by simp
  have rn: "real_of_int n = real (nat n)" using assms(1) by simp
  have mean: "p = 1 / 2 \<longrightarrow> ?lo n \<le> real_of_int n * p \<and> real_of_int n * p \<le> ?hi n"
    unfolding rn using interval_half_contains_mean [of "nat n"] by blast
  show ?thesis
    using r r' lo hi mean by blast
qed

theorem interval_monotone_in_total_witness:
  "\<exists>r r' lo hi lo' hi'.
           perform_binomial_test With_binomtest 2 5 (1 / 2) = Inr r
           \<and> perform_binomial_test With_binomtest 3 8 (1 / 2) = Inr r'
           \<and> confidence_interval r = (Fin lo, Fin hi)
           \<and> confidence_interval r' = (Fin lo', Fin hi')
           \<and> lo \<le> lo' \<and> hi \<le> hi'
           \<and> lo \<le> real_of_int 5 * (1 / 2) \<and> real_of_int 5 * (1 / 2) \<le> hi"
  using interval_monotone_in_total [of 5 8 2 3 "1 / 2" With_binomtest]
  by simp

lemma ppf_2_lo: "binom_ppf (1 / 40) 2 (99 / 100) = 2"
  by code_simp

lemma ppf_2_hi: "binom_ppf (39 / 40) 2 (99 / 100) = 2"
  by code_simp

text \<open>
  Claim C9, as stated, fails for 2 flips at probability 0.99: the returned interval
  runs from 2 to 2, and the mean 1.98 lies below its lower bound.
\<close>

theorem interval_misses_mean_counterexample:
  "map_sum id confidence_interval (perform_binomial_test With_binomtest 2 2 (99 / 100))
     = Inr (Fin 2, Fin 2)
   \<and> real_of_int 2 * (99 / 100) < 2"
  by (simp add: perform_with_binomtest ppf_2_lo ppf_2_hi)

section \<open>The fair coin: outcomes no more likely than the observed one\<close>

lemma rerr_ge_one: "1 \<le> rerr"
  by (simp add: rerr_def)

lemma choose_step: "real (Suc k) * real (n choose Suc k) = real (n - k) * real (n choose k)"
proof -
  have "Suc k * (n choose Suc k) = (n - k) * (n choose k)"
    by (simp only: binomial_absorption binomial_absorb_comp)
  then have "real (Suc k * (n choose Suc k)) = real ((n - k) * (n choose k))"
    by (simp only:)
  then show ?thesis
    by (simp only: of_nat_mult)
qed

lemma choose_gap_Suc:
  assumes "2 * Suc k \<le> n" "n \<le> 10 ^ 7"
  shows "real (n choose k) * rerr < real (n choose Suc k)"
proof -
  let ?c = "real (n choose k)" and ?c' = "real (n choose Suc k)"
  have kn: "k \<le> n" using assms(1) by simp
  have cpos: "0 < ?c"
    using kn by (simp add: zero_less_binomial)
  have "Suc k + 1 \<le> n - k" using assms(1) by simp
  then have "real (Suc k + 1) \<le> real (n - k)"
    by (simp only: of_nat_le_iff)
  then have "real (Suc k + 1) * ?c \<le> real (n - k) * ?c"
    using cpos by (simp only: mult_le_cancel_right_pos)
  then have s: "(real (Suc k) + 1) * ?c \<le> real (Suc k) * ?c'"
    by (simp only: choose_step of_nat_add of_nat_1)
  have "Suc k < 10 ^ 7" using assms by simp
  then have "real (Suc k) < real (10 ^ 7)"
    by (simp only: of_nat_less_iff)
  then have small: "real (Suc k) / 10 ^ 7 < 1"
    by simp
  then have "real (Suc k) / 10 ^ 7 * ?c < 1 * ?c"
    using cpos by (simp only: mult_less_cancel_right_pos)
  then have lt: "real (Suc k) * (?c * rerr) < (real (Suc k) + 1) * ?c"
    by (simp add: rerr_def algebra_simps)
  have "real (Suc k) * (?c * rerr) < real (Suc k) * ?c'"
    by (rule less_le_trans [OF lt s])
  moreover have "0 < real (Suc k)" by simp
  ultimately show ?thesis
    by (simp only: mult_less_cancel_left_pos)
qed

lemma choose_gap:
  assumes "k < j" "2 * j \<le> n" "n \<le> 10 ^ 7"
  shows "real (n choose k) * rerr < real (n choose j)"
proof -
  have "2 * Suc k \<le> n" using assms(1) assms(2) by simp
  then have "real (n choose k) * rerr < real (n choose Suc k)"
    using assms(3) by (rule choose_gap_Suc)
  moreover have "n choose Suc k \<le> n choose j"
    by (rule binomial_mono) (use assms in simp_all)
  ultimately show ?thesis
    by (simp add: less_le_trans)
qed

lemma choose_within:
  assumes "i \<le> k" "2 * k \<le> n"
  shows "real (n choose i) \<le> real (n choose k) * rerr"
proof -
  have "n choose i \<le> n choose k"
    by (rule binomial_mono [OF assms])
  then have "real (n choose i) \<le> real (n choose k)"
    by (simp only: of_nat_le_iff)
  also have "\<dots> = real (n choose k) * 1" by simp
  also have "\<dots> \<le> real (n choose k) * rerr"
    by (rule mult_left_mono [OF rerr_ge_one]) simp
  finally show ?thesis .
qed

lemma pmf_half_near_iff:
  assumes "2 * k \<le> n" "2 * i \<le> n" "n \<le> 10 ^ 7"
  shows "binom_pmf n (1 / 2) i \<le> binom_pmf n (1 / 2) k * rerr \<longleftrightarrow> i \<le> k"
proof -
  have "binom_pmf n (1 / 2) i \<le> binom_pmf n (1 / 2) k * rerr
          \<longleftrightarrow> real (n choose i) / 2 ^ n \<le> real (n choose k) * rerr / 2 ^ n"
    by (simp add: pmf_half)
  also have "\<dots> \<longleftrightarrow> real (n choose i) \<le> real (n choose k) * rerr"
    by (simp add: divide_le_cancel)
  also have "\<dots> \<longleftrightarrow> i \<le> k"
  proof
    assume le: "real (n choose i) \<le> real (n choose k) * rerr"
    show "i \<le> k"
    proof (rule ccontr)
      assume "\<not> i \<le> k"
      then have "k < i" by simp
      then have "real (n choose k) * rerr < real (n choose i)"
        using assms(2) assms(3) by (rule choose_gap)
      then show False using le by simp
    qed
  next
    assume "i \<le> k"
    then show "real (n choose i) \<le> real (n choose k) * rerr"
      using assms(1) by (rule choose_within)
  qed
  finally show ?thesis .
qed

lemma length_filter_upt: "length (filter P [a..<b]) = card {i \<in> {a..<b}. P i}"
proof -
  have "distinct (filter P [a..<b])" by simp
  then have "length (filter P [a..<b]) = card (set (filter P [a..<b]))"
    by (simp only: distinct_card)
  then show ?thesis by simp
qed

lemma upper_count:
  assumes "2 * k < n" "n \<le> 10 ^ 7"
  shows "length (filter (\<lambda>i. binom_pmf n (1 / 2) i \<le> binom_pmf n (1 / 2) k * rerr)
                   [nat \<lceil>1 / 2 * real n\<rceil>..<Suc n]) = Suc k"
proof -
  let ?a = "nat \<lceil>1 / 2 * real n\<rceil>"
  have a_le: "?a \<le> n - k"
  proof -
    have "2 * k \<le> n" using assms(1) by simp
    then have "n \<le> 2 * (n - k)" by simp
    then have "real n \<le> real (2 * (n - k))" by (simp only: of_nat_le_iff)
    then have "1 / 2 * real n \<le> of_int (int (n - k))" by simp
    then have "\<lceil>1 / 2 * real n\<rceil> \<le> int (n - k)" by (rule ceiling_le)
    then show ?thesis by (simp only: nat_le_iff)
  qed
  have a_ge: "n \<le> 2 * i" if "?a \<le> i" for i
  proof -
    have "1 / 2 * real n \<le> of_int \<lceil>1 / 2 * real n\<rceil>" by (rule le_of_int_ceiling)
    also have "\<dots> \<le> of_int (int i)" using that by (simp only: nat_le_iff of_int_le_iff)
    finally have "real n \<le> real (2 * i)" by simp
    then show ?thesis by (simp only: of_nat_le_iff)
  qed
  have k2: "2 * k \<le> n" using assms(1) by simp
  have "{i \<in> {?a..<Suc n}. binom_pmf n (1 / 2) i \<le> binom_pmf n (1 / 2) k * rerr} = {n - k..n}"
  proof (rule set_eqI)
    fix i
    show "i \<in> {i \<in> {?a..<Suc n}. binom_pmf n (1 / 2) i \<le> binom_pmf n (1 / 2) k * rerr}
            \<longleftrightarrow> i \<in> {n - k..n}"
    proof (cases "?a \<le> i \<and> i \<le> n")
      case True
      then have ai: "?a \<le> i" and i_le: "i \<le> n"
        by blast+
      have ni: "n \<le> 2 * i"
        by (rule a_ge [OF ai])
      have i2: "2 * (n - i) \<le> n"
        using ni i_le by linarith
      have "binom_pmf n (1 / 2) i = binom_pmf n (1 / 2) (n - (n - i))"
        using i_le by simp
      also have "\<dots> = binom_pmf n (1 / 2) (n - i)"
        by (rule pmf_half_symmetric) simp
      finally have e: "binom_pmf n (1 / 2) i = binom_pmf n (1 / 2) (n - i)" .
      have "binom_pmf n (1 / 2) i \<le> binom_pmf n (1 / 2) k * rerr \<longleftrightarrow> n - i \<le> k"
        unfolding e by (rule pmf_half_near_iff [OF k2 i2 assms(2)])
      then show ?thesis
        using True i_le by auto
    next
      case False
      then show ?thesis
        using a_le by auto
    qed
  qed
  then have "length (filter (\<lambda>i. binom_pmf n (1 / 2) i \<le> binom_pmf n (1 / 2) k * rerr) [?a..<Suc n])
               = card {n - k..n}"
    by (simp only: length_filter_upt)
  also have "\<dots> = Suc k"
    using k2 by simp
  finally show ?thesis .
qed

lemma lower_count:
  assumes "n < 2 * k" "k \<le> n" "n \<le> 10 ^ 7"
  shows "length (filter (\<lambda>i. binom_pmf n (1 / 2) i \<le> binom_pmf n (1 / 2) k * rerr)
                   [0..<Suc (nat \<lfloor>1 / 2 * real n\<rfloor>)]) = Suc (n - k)"
proof -
  let ?b = "nat \<lfloor>1 / 2 * real n\<rfloor>"
  have k2: "2 * (n - k) \<le> n" using assms(1) by simp
  have b_ge: "n - k \<le> ?b"
  proof -
    have "real (2 * (n - k)) \<le> real n" using k2 by (simp only: of_nat_le_iff)
    then have "of_int (int (n - k)) \<le> 1 / 2 * real n" by simp
    then have "int (n - k) \<le> \<lfloor>1 / 2 * real n\<rfloor>" by (simp only: le_floor_iff)
    moreover have "0 \<le> \<lfloor>1 / 2 * real n\<rfloor>" by simp
    ultimately show ?thesis by (simp only: le_nat_iff)
  qed
  have b_le: "2 * i \<le> n" if "i \<le> ?b" for i
  proof -
    have "0 \<le> \<lfloor>1 / 2 * real n\<rfloor>" by simp
    then have "int i \<le> \<lfloor>1 / 2 * real n\<rfloor>" using that by (simp only: le_nat_iff)
    then have "of_int (int i) \<le> 1 / 2 * real n" by (simp only: le_floor_iff)
    then have "real (2 * i) \<le> real n" by simp
    then show ?thesis by (simp only: of_nat_le_iff)
  qed
  have e: "binom_pmf n (1 / 2) k = binom_pmf n (1 / 2) (n - k)"
    by (rule pmf_half_symmetric [OF assms(2), symmetric])
  have "{i \<in> {0..<Suc ?b}. binom_pmf n (1 / 2) i \<le> binom_pmf n (1 / 2) k * rerr} = {..n - k}"
  proof (rule set_eqI)
    fix i
    show "i \<in> {i \<in> {0..<Suc ?b}. binom_pmf n (1 / 2) i \<le> binom_pmf n (1 / 2) k * rerr}
            \<longleftrightarrow> i \<in> {..n - k}"
    proof (cases "i \<le> ?b")
      case True
      have "binom_pmf n (1 / 2) i \<le> binom_pmf n (1 / 2) k * rerr \<longleftrightarrow> i \<le> n - k"
        unfolding e by (rule pmf_half_near_iff [OF k2 b_le [OF True] assms(3)])
      then show ?thesis
        using True by auto
    next
      case False
      then show ?thesis
        using b_ge by auto
    qed
  qed
  then have "length (filter (\<lambda>i. binom_pmf n (1 / 2) i \<le> binom_pmf n (1 / 2) k * rerr) [0..<Suc ?b])
               = card {..n - k}"
    by (simp only: length_filter_upt)
  then show ?thesis by simp
qed

section \<open>The fair coin: the exact test doubles the tail\<close>

lemma half_conditions:
  "(real k = 1 / 2 * real n) = (2 * k = n)"
  "(real k < 1 / 2 * real n) = (2 * k < n)"
  "(real_of_int (int k) \<le> real_of_int (int n) * (1 / 2)) = (2 * k \<le> n)"
proof -
  have "(real k = 1 / 2 * real n) = (real (2 * k) = real n)" by auto
  then show "(real k = 1 / 2 * real n) = (2 * k = n)" by (simp only: of_nat_eq_iff)
  have "(real k < 1 / 2 * real n) = (real (2 * k) < real n)" by auto
  then show "(real k < 1 / 2 * real n) = (2 * k < n)" by (simp only: of_nat_less_iff)
  have "(real_of_int (int k) \<le> real_of_int (int n) * (1 / 2)) = (real (2 * k) \<le> real n)" by auto
  then show "(real_of_int (int k) \<le> real_of_int (int n) * (1 / 2)) = (2 * k \<le> n)"
    by (simp only: of_nat_le_iff)
qed

lemma two_sided_half:
  assumes "k \<le> n" "n \<le> 10 ^ 7"
  shows "two_sided_pvalue k n (1 / 2) = spec_p_value (int k) (int n) (1 / 2)"
proof -
  consider (eq) "2 * k = n" | (lt) "2 * k < n" | (gt) "n < 2 * k"
    by linarith
  then show ?thesis
  proof cases
    case eq
    have "n \<le> 2 * k + 1" using eq by simp
    then have "1 / 2 \<le> binom_cdf n (1 / 2) (int k)"
      by (rule cdf_half_at_least)
    then have "min 1 (2 * binom_cdf n (1 / 2) (int k)) = 1"
      by simp
    moreover have c: "real k = 1 / 2 * real n"
      using eq by (simp only: half_conditions)
    have "two_sided_pvalue k n (1 / 2) = 1"
      by (simp only: two_sided_pvalue_def Let_def c simp_thms if_True min.idem)
    moreover have "spec_p_value (int k) (int n) (1 / 2) = min 1 (2 * binom_cdf n (1 / 2) (int k))"
      using eq by (simp add: spec_p_value_def half_conditions)
    moreover note \<open>two_sided_pvalue k n (1 / 2) = 1\<close>
    ultimately show ?thesis by simp
  next
    case lt
    have ne: "2 * k \<noteq> n" using lt by simp
    have r: "binom_cdf n (1 / 2) (int k) + binom_cdf n (1 / 2) (int n - int k - 1) = 1"
      by (rule cdf_half_reflect [OF assms(1)])
    have "two_sided_pvalue k n (1 / 2)
            = min 1 (binom_cdf n (1 / 2) (int k) + binom_sf n (1 / 2) (int n - int (Suc k)))"
      using lt ne
      by (simp only: two_sided_pvalue_def half_conditions Let_def if_True if_False
          upper_count [OF lt assms(2)])
    also have "\<dots> = min 1 (2 * binom_cdf n (1 / 2) (int k))"
      using r by (simp add: binom_sf_def algebra_simps)
    also have "\<dots> = spec_p_value (int k) (int n) (1 / 2)"
      using lt by (simp add: spec_p_value_def half_conditions)
    finally show ?thesis .
  next
    case gt
    have ne: "2 * k \<noteq> n" "\<not> 2 * k < n" "\<not> 2 * k \<le> n" using gt by simp_all
    have nk: "n - k \<le> n" by simp
    have r: "binom_cdf n (1 / 2) (int (n - k)) + binom_cdf n (1 / 2) (int n - int (n - k) - 1) = 1"
      by (rule cdf_half_reflect [OF nk])
    have e: "int n - int (n - k) - 1 = int k - 1"
      using assms(1) by simp
    have "two_sided_pvalue k n (1 / 2)
            = min 1 (binom_cdf n (1 / 2) (int (Suc (n - k)) - 1) + binom_sf n (1 / 2) (int k - 1))"
      using ne
      by (simp only: two_sided_pvalue_def half_conditions Let_def if_True if_False
          lower_count [OF gt assms(1) assms(2)])
    also have "\<dots> = min 1 (2 * (1 - binom_cdf n (1 / 2) (int k - 1)))"
      using r unfolding e by (simp add: binom_sf_def algebra_simps)
    also have "\<dots> = spec_p_value (int k) (int n) (1 / 2)"
      using ne by (simp add: spec_p_value_def half_conditions)
    finally show ?thesis .
  qed
qed

section \<open>The p-value against the specification's formula\<close>

text \<open>
  Claim C1, amended. For a total of at least 1, a count of heads between 0 and the
  total and a probability between 0 and 1, the returned p-value is the specification's
  doubled-tail formula in two situations: when SciPy has no \<open>binomtest\<close>, so that the
  manual computation runs, and when \<open>binomtest\<close> runs for the fair coin (probability
  1/2, the value the application passes) with a total of at most ten million, where the
  relative tolerance of \<open>binomtest\<close> cannot merge neighbouring outcomes.
\<close>

theorem p_value_formula:
  assumes "1 \<le> n_total" "0 \<le> n_caras" "n_caras \<le> n_total" "0 \<le> p" "p \<le> 1"
    and "env = Without_binomtest \<or> (p = 1 / 2 \<and> n_total \<le> 10 ^ 7)"
  shows "\<exists>r. perform_binomial_test env n_caras n_total p = Inr r
           \<and> p_value r = Fin (spec_p_value n_caras n_total p)"
proof (cases env)
  case Without_binomtest
  have n0: "0 \<le> n_total" using assms(1) by simp
  show ?thesis
    unfolding Without_binomtest perform_without_binomtest [OF n0 assms(4) assms(5)] by simp
next
  case With_binomtest
  then have p: "p = 1 / 2" and n: "n_total \<le> 10 ^ 7"
    using assms(6) by simp_all
  have kn: "nat n_caras \<le> nat n_total"
    using assms(3) by simp
  have nn: "nat n_total \<le> 10 ^ 7"
    using n by simp
  have "two_sided_pvalue (nat n_caras) (nat n_total) (1 / 2)
          = spec_p_value (int (nat n_caras)) (int (nat n_total)) (1 / 2)"
    by (rule two_sided_half [OF kn nn])
  then have e: "two_sided_pvalue (nat n_caras) (nat n_total) p = spec_p_value n_caras n_total p"
    unfolding p using assms(1) assms(2) by simp
  show ?thesis
    unfolding With_binomtest perform_with_binomtest [OF assms(1-5)] e by simp
qed

lemma spec_example: "spec_p_value 0 10 (1 / 2) = 1 / 512"
  by code_simp

theorem p_value_formula_witness:
  "\<exists>r. perform_binomial_test With_binomtest 0 10 (1 / 2) = Inr r \<and> p_value r = Fin (1 / 512)"
  using p_value_formula [of 10 0 "1 / 2" With_binomtest]
  by (simp add: spec_example)

lemma two_sided_2_2: "two_sided_pvalue 2 2 (1 / 5) = 1 / 25"
  by (simp add: two_sided_pvalue_def binom_pmf_def binom_cdf_def binom_sf_def rerr_def Let_def
      power2_eq_square)

lemma spec_2_2: "spec_p_value 2 2 (1 / 5) = 2 / 25"
  by (simp add: spec_p_value_def binom_pmf_def binom_cdf_def eval_nat_numeral)

lemma ppf_2_fifth_lo: "binom_ppf (1 / 40) 2 (1 / 5) = 0"
  by code_simp

lemma ppf_2_fifth_hi: "binom_ppf (39 / 40) 2 (1 / 5) = 2"
  by code_simp

text \<open>
  Claim C1, as stated, fails when \<open>binomtest\<close> runs for a biased coin: for 2 heads
  in 2 flips at probability 1/5 the returned p-value is 1/25 (verdict: not fair), while
  the specification's formula gives 2/25.
\<close>

theorem binomtest_p_value_counterexample:
  "perform_binomial_test With_binomtest 2 2 (1 / 5)
     = Inr \<lparr> p_value = Fin (1 / 25), is_fair = False, confidence_interval = (Fin 0, Fin 2) \<rparr>
   \<and> spec_p_value 2 2 (1 / 5) = 2 / 25"
  by (simp add: perform_with_binomtest two_sided_2_2 spec_2_2 ppf_2_fifth_lo ppf_2_fifth_hi)

end
